theory Spec2Isabelle
  imports Main "HOL-Library.Word"
begin

unbundle bit_operations_syntax

section \<open>Fixed-width integers, constants and errors\<close>

text \<open>
  Go's \<open>uint32\<close> and \<open>uint8\<close> are words of 32 and 8 bits: \<open>+\<close> and \<open>-\<close> wrap around.
  A Go shift \<open>x << s\<close> or \<open>x >> s\<close> of an unsigned value by an unsigned count is
  defined for every count and gives 0 once the count reaches the width; \<open>push_bit\<close>
  and \<open>drop_bit\<close> on words behave the same way.
\<close>

type_synonym uint32 = "32 word"
type_synonym uint8 = "8 word"

definition shl :: "uint32 \<Rightarrow> uint8 \<Rightarrow> uint32" where
  "shl x s = push_bit (unat s) x"

definition shr :: "uint32 \<Rightarrow> uint8 \<Rightarrow> uint32" where
  "shr x s = drop_bit (unat s) x"

text \<open>The numeric constants of package \<open>consts\<close>.\<close>

definition MaxUInt32 :: uint32 where
  "MaxUInt32 = NOT 0"

definition MaxBits :: uint8 where
  "MaxBits = 32"

definition EightBits :: uint32 where
  "EightBits = 255"

definition GroupSize :: uint8 where
  "GroupSize = 8"

definition HighestBitSet :: uint32 where
  "HighestBitSet = shl 1 (MaxBits - 1)"

text \<open>
  The four error strings of \<open>consts/errors.go\<close>, one constructor each. \<open>NumError\<close> is
  the \<open>*strconv.NumError\<close> that \<open>strconv.Atoi\<close> returns (syntax or range), and
  \<open>IndexOutOfRange\<close> is the run-time panic of \<open>ipNumbers[i]\<close> in \<open>parse\<close> when the
  slice is too short.
\<close>

datatype error =
    InvalidIPv4CIDRError
  | NonStandardizedIPError
  | NoMoreSplittingPossibleError
  | RequestedIPExceedsCIDRRangeError
  | NumError
  | IndexOutOfRange

section \<open>The Go standard library functions the package calls\<close>

subsection \<open>\<open>strings.Split\<close> and \<open>strings.Join\<close>\<close>

text \<open>
  \<open>strings.Split(s, sep)\<close> for a separator of one byte, which is what both call sites
  pass (\<open>"/"\<close> and \<open>"."\<close>): the pieces between the separators, one more than there are
  separators, so never an empty slice.
\<close>

fun strings_Split :: "string \<Rightarrow> char \<Rightarrow> string list" where
  "strings_Split [] sep = [[]]"
| "strings_Split (c # cs) sep =
     (if c = sep then [] # strings_Split cs sep
      else (let r = strings_Split cs sep in (c # hd r) # tl r))"

fun strings_Join :: "string list \<Rightarrow> string \<Rightarrow> string" where
  "strings_Join [] sep = []"
| "strings_Join [x] sep = x"
| "strings_Join (x # y # ys) sep = x @ sep @ strings_Join (y # ys) sep"

subsection \<open>\<open>strconv.Itoa\<close> and \<open>strconv.Atoi\<close>\<close>

definition digit_char :: "nat \<Rightarrow> char" where
  "digit_char d = char_of (48 + d)"

function digits :: "nat \<Rightarrow> string" where
  "digits n = (if n < 10 then [digit_char n] else digits (n div 10) @ [digit_char (n mod 10)])"
  by pat_completeness auto
termination
  by (relation "measure id") auto

declare digits.simps [simp del]

text \<open>\<open>strconv.Itoa\<close>: the decimal representation, with a minus sign below zero.\<close>

definition strconv_Itoa :: "int \<Rightarrow> string" where
  "strconv_Itoa i = (if i < 0 then CHR ''-'' # digits (nat (- i)) else digits (nat i))"

definition is_digit :: "char \<Rightarrow> bool" where
  "is_digit c \<longleftrightarrow> (48::nat) \<le> of_char c \<and> of_char c \<le> (57::nat)"

definition digit_val :: "char \<Rightarrow> nat" where
  "digit_val c = of_char c - 48"

text \<open>The digit loop of \<open>strconv.Atoi\<close>: \<open>None\<close> at the first byte that is no digit.\<close>

fun parse_digits :: "string \<Rightarrow> nat \<Rightarrow> nat option" where
  "parse_digits [] n = Some n"
| "parse_digits (c # cs) n =
     (if is_digit c then parse_digits cs (n * 10 + digit_val c) else None)"

text \<open>
  \<open>strconv.Atoi\<close>: an optional sign, then at least one decimal digit and nothing else;
  the value must fit the 64-bit \<open>int\<close>. Every failure is a \<open>NumError\<close>.
\<close>

definition strconv_Atoi :: "string \<Rightarrow> error + int" where
  "strconv_Atoi s =
     (case s of
        [] \<Rightarrow> Inl NumError
      | c # cs \<Rightarrow>
          (let neg = (c = CHR ''-'');
               ds = (if c = CHR ''-'' \<or> c = CHR ''+'' then cs else s)
           in if ds = [] then Inl NumError
              else (case parse_digits ds 0 of
                      None \<Rightarrow> Inl NumError
                    | Some n \<Rightarrow>
                        (let v = (if neg then - int n else int n)
                         in if v < - (2 ^ 63) \<or> 2 ^ 63 - 1 < v then Inl NumError
                            else Inr v))))"

subsection \<open>\<open>regexp.Match\<close>\<close>

text \<open>
  The regular expressions the pattern of this package needs: a literal byte, a byte
  range \<open>[a-b]\<close>, concatenation, alternation \<open>|\<close>, the optional \<open>?\<close> and the counted
  repetition \<open>{n}\<close>. \<open>rem r s\<close> lists every rest of \<open>s\<close> that is left after a prefix of
  \<open>s\<close> matched \<open>r\<close>.
\<close>

datatype regex =
    Lit char
  | CRange char char
  | Seq regex regex
  | Alt regex regex
  | Opt regex
  | Rep nat regex

fun iter :: "nat \<Rightarrow> (string \<Rightarrow> string list) \<Rightarrow> string \<Rightarrow> string list" where
  "iter 0 f s = [s]"
| "iter (Suc n) f s = concat (map (iter n f) (f s))"

fun rem :: "regex \<Rightarrow> string \<Rightarrow> string list" where
  "rem (Lit a) s = (case s of [] \<Rightarrow> [] | c # cs \<Rightarrow> if c = a then [cs] else [])"
| "rem (CRange lo hi) s =
     (case s of
        [] \<Rightarrow> []
      | c # cs \<Rightarrow>
          if (of_char lo :: nat) \<le> of_char c \<and> (of_char c :: nat) \<le> of_char hi then [cs]
          else [])"
| "rem (Seq r1 r2) s = concat (map (rem r2) (rem r1 s))"
| "rem (Alt r1 r2) s = rem r1 s @ rem r2 s"
| "rem (Opt r) s = rem r s @ [s]"
| "rem (Rep n r) s = iter n (rem r) s"

text \<open>
  \<open>regexp.Match\<close> reports whether some substring matches. The pattern of this package
  starts with \<open>^\<close> and ends with \<open>$\<close>, and without the \<open>m\<close> flag Go's \<open>$\<close> is the end
  of the text only, so the whole input has to match: the anchors are part of
  \<open>regexp_Match\<close> here and not of the \<open>regex\<close> value. The pattern is a constant that
  compiles, so the error result of \<open>regexp.Match\<close> does not occur.
\<close>

definition regexp_Match :: "regex \<Rightarrow> string \<Rightarrow> bool" where
  "regexp_Match r s \<longleftrightarrow> [] \<in> set (rem r s)"

text \<open>
  \<open>consts.IPv4CIDRRegex\<close>:
  \<^verbatim>\<open>^(?:(?:25[0-5]|2[0-4][0-9]|[01]?[0-9][0-9]?)\.){3}(?:25[0-5]|2[0-4][0-9]|[01]?[0-9][0-9]?)(?:\/(?:[0-9]|[1-2][0-9]|3[0-2]))?$\<close>
\<close>

definition octet_re :: regex where
  "octet_re =
     Alt (Seq (Lit CHR ''2'') (Seq (Lit CHR ''5'') (CRange CHR ''0'' CHR ''5'')))
    (Alt (Seq (Lit CHR ''2'') (Seq (CRange CHR ''0'' CHR ''4'') (CRange CHR ''0'' CHR ''9'')))
         (Seq (Opt (CRange CHR ''0'' CHR ''1''))
              (Seq (CRange CHR ''0'' CHR ''9'') (Opt (CRange CHR ''0'' CHR ''9'')))))"

definition prefix_re :: regex where
  "prefix_re =
     Alt (CRange CHR ''0'' CHR ''9'')
    (Alt (Seq (CRange CHR ''1'' CHR ''2'') (CRange CHR ''0'' CHR ''9''))
         (Seq (Lit CHR ''3'') (CRange CHR ''0'' CHR ''2'')))"

definition IPv4CIDRRegex :: regex where
  "IPv4CIDRRegex =
     Seq (Rep 3 (Seq octet_re (Lit CHR ''.'')))
    (Seq octet_re (Opt (Seq (Lit CHR ''/'') prefix_re)))"

section \<open>Package \<open>utils\<close>\<close>

definition GetNetmask :: "uint8 \<Rightarrow> uint32" where
  "GetNetmask m = shl MaxUInt32 (MaxBits - m)"

text \<open>
  \<open>GetCIDRRangeLength\<close> is \<open>uint32(math.Pow(float64(2), float64(MaxBits - mask)))\<close>.
  The exponent is a \<open>uint8\<close>, so it is an integer from 0 to 255, and \<open>math.Pow\<close> of 2
  and such an exponent is the exact power of two (every one of them is a \<open>float64\<close>).
  Go leaves the conversion of a value that does not fit the \<open>uint32\<close> to the
  implementation; here it keeps the low 32 bits, which is what the test
  \<open>TestGetCIDRRangeLength\<close> of the package expects for mask 0, where it compares the
  result with 1 doubled 32 times in a \<open>uint32\<close>.
\<close>

definition GetCIDRRangeLength :: "uint8 \<Rightarrow> uint32" where
  "GetCIDRRangeLength m = word_of_int (2 ^ unat (MaxBits - m))"

definition Standardize :: "uint32 \<Rightarrow> uint32 \<Rightarrow> uint32" where
  "Standardize a netmask = a AND netmask"

text \<open>\<open>CheckStandardized\<close> returns \<open>nil\<close> (\<open>None\<close>) or the error.\<close>

definition CheckStandardized :: "uint32 \<Rightarrow> uint32 \<Rightarrow> error option" where
  "CheckStandardized a netmask =
     (if a = Standardize a netmask then None else Some NonStandardizedIPError)"

text \<open>
  The loop of \<open>ConvertIPToString\<close> runs \<open>i\<close> from 3 down to 0; the counter of
  \<open>ConvertIPToString_loop\<close> is \<open>i + 1\<close>.
\<close>

fun ConvertIPToString_loop :: "nat \<Rightarrow> uint32 \<Rightarrow> string list \<Rightarrow> string list" where
  "ConvertIPToString_loop 0 a ipSections = ipSections"
| "ConvertIPToString_loop (Suc i) a ipSections =
     ConvertIPToString_loop i (shr a GroupSize)
       (ipSections[i := strconv_Itoa (uint (a AND EightBits))])"

definition ConvertIPToString :: "uint32 \<Rightarrow> string" where
  "ConvertIPToString a = strings_Join (ConvertIPToString_loop 4 a (replicate 4 [])) ''.''"

section \<open>Package \<open>ipv4cidr\<close>\<close>

record IPv4CIDR =
  ip :: uint32
  mask_f :: uint8
  netmask :: uint32
  rangeLength :: uint32

text \<open>
  The octet loop of \<open>parse\<close>: \<open>k\<close> iterations are left, \<open>i\<close> is the index and \<open>a\<close> the
  address built so far. Reading \<open>ipNumbers[i]\<close> beyond the slice panics.
\<close>

fun parse_loop :: "nat \<Rightarrow> string list \<Rightarrow> nat \<Rightarrow> uint32 \<Rightarrow> error + uint32" where
  "parse_loop 0 ipNumbers i a = Inr a"
| "parse_loop (Suc k) ipNumbers i a =
     (if length ipNumbers \<le> i then Inl IndexOutOfRange
      else (case strconv_Atoi (ipNumbers ! i) of
              Inl e \<Rightarrow> Inl e
            | Inr tempIP \<Rightarrow>
                parse_loop k ipNumbers (i + 1) (shl a GroupSize OR word_of_int tempIP)))"

text \<open>
  \<open>parse\<close> fills the receiver, which \<open>NewIPv4CIDR\<close> created empty; here it returns the
  block. The mask is 32 unless the input has exactly two \<open>/\<close>-sections.
\<close>

definition parse_mask :: "string list \<Rightarrow> error + uint8" where
  "parse_mask ipSections =
     (if length ipSections = 2
      then (case strconv_Atoi (ipSections ! 1) of
              Inl e \<Rightarrow> Inl e
            | Inr tempMask \<Rightarrow> Inr (word_of_int tempMask))
      else Inr 32)"

definition parse :: "string \<Rightarrow> bool \<Rightarrow> error + IPv4CIDR" where
  "parse ipString standardize =
     (let ipSections = strings_Split ipString CHR ''/''
      in case parse_mask ipSections of
           Inl e \<Rightarrow> Inl e
         | Inr m \<Rightarrow>
             (case parse_loop 4 (strings_Split (ipSections ! 0) CHR ''.'') 0 0 of
                Inl e \<Rightarrow> Inl e
              | Inr a \<Rightarrow>
                  (let nm = GetNetmask m;
                       rl = GetCIDRRangeLength m
                   in if standardize
                      then Inr \<lparr>ip = Standardize a nm, mask_f = m, netmask = nm,
                                rangeLength = rl\<rparr>
                      else (case CheckStandardized a nm of
                              Some e \<Rightarrow> Inl e
                            | None \<Rightarrow>
                                Inr \<lparr>ip = a, mask_f = m, netmask = nm,
                                     rangeLength = rl\<rparr>))))"

definition NewIPv4CIDR :: "string \<Rightarrow> bool \<Rightarrow> error + IPv4CIDR" where
  "NewIPv4CIDR IP standardize =
     (if \<not> regexp_Match IPv4CIDRRegex IP then Inl InvalidIPv4CIDRError
      else parse IP standardize)"

definition Split :: "IPv4CIDR \<Rightarrow> error + (IPv4CIDR \<times> IPv4CIDR)" where
  "Split i =
     (if rangeLength i = 1 then Inl NoMoreSplittingPossibleError
      else
        (let newMask = mask_f i + 1;
             newRange = rangeLength i div 2;
             newNetmask = shr (netmask i) 1 OR HighestBitSet;
             newIP1 = ip i;
             newIP2 = ip i OR (newNetmask XOR netmask i)
         in Inr (\<lparr>ip = newIP1, mask_f = newMask, netmask = newNetmask,
                    rangeLength = newRange\<rparr>,
                 \<lparr>ip = newIP2, mask_f = newMask, netmask = newNetmask,
                    rangeLength = newRange\<rparr>)))"

definition GetIPInRange :: "IPv4CIDR \<Rightarrow> uint32 \<Rightarrow> bool \<Rightarrow> error + string" where
  "GetIPInRange i n withCIDR =
     (if rangeLength i < n then Inl RequestedIPExceedsCIDRRangeError
      else
        (let nthIP = ip i + n - 1;
             nthIPstr = ConvertIPToString nthIP
         in if withCIDR
            then Inr (strings_Join [nthIPstr, strconv_Itoa (uint (mask_f i))] ''/'')
            else Inr nthIPstr))"

definition ToString :: "IPv4CIDR \<Rightarrow> string" where
  "ToString i =
     strings_Join [ConvertIPToString (ip i), strconv_Itoa (uint (mask_f i))] ''/''"

definition GetIP :: "IPv4CIDR \<Rightarrow> string" where
  "GetIP i = ConvertIPToString (ip i)"

section \<open>Properties of blocks\<close>

text \<open>
  A block is in standard form when its address is the first address of its range, and
  \<open>prefix_mask\<close> holds of the netmasks that consist of leading ones only.
\<close>

definition standard_form :: "IPv4CIDR \<Rightarrow> bool" where
  "standard_form b \<longleftrightarrow> ip b AND netmask b = ip b"

definition prefix_mask :: "uint32 \<Rightarrow> bool" where
  "prefix_mask x \<longleftrightarrow> (\<exists>k\<le>32. x = NOT (mask k))"

text \<open>
  The blocks a caller can hold: those returned by \<open>NewIPv4CIDR\<close> and those returned by
  \<open>Split\<close> on such a block.
\<close>

inductive constructed :: "IPv4CIDR \<Rightarrow> bool" where
  New: "NewIPv4CIDR s std = Inr b \<Longrightarrow> constructed b"
| Split_lower: "constructed p \<Longrightarrow> Split p = Inr (l, u) \<Longrightarrow> constructed l"
| Split_upper: "constructed p \<Longrightarrow> Split p = Inr (l, u) \<Longrightarrow> constructed u"

text \<open>The dotted-quad notation of a 32-bit address, most significant byte first.\<close>

definition dotted_quad :: "uint32 \<Rightarrow> string" where
  "dotted_quad a =
     digits (unat a div 16777216) @ ''.'' @ digits (unat a div 65536 mod 256) @ ''.'' @
     digits (unat a div 256 mod 256) @ ''.'' @ digits (unat a mod 256)"

text \<open>The value of a string of decimal digits.\<close>

definition dec_val :: "string \<Rightarrow> nat" where
  "dec_val p = foldl (\<lambda>n c. n * 10 + digit_val c) 0 p"

text \<open>
  What the octet part of the pattern matches: one to three decimal digits of value at
  most 255. What the prefix part matches: one or two decimal digits of value at most 32,
  the first of two not 0.
\<close>

definition octet_ok :: "string \<Rightarrow> bool" where
  "octet_ok p \<longleftrightarrow> p \<noteq> [] \<and> length p \<le> 3 \<and> list_all is_digit p \<and> dec_val p \<le> 255"

definition prefix_ok :: "string \<Rightarrow> bool" where
  "prefix_ok p \<longleftrightarrow>
     p \<noteq> [] \<and> length p \<le> 2 \<and> list_all is_digit p \<and> dec_val p \<le> 32 \<and>
     (length p = 2 \<longrightarrow> hd p \<noteq> CHR ''0'')"

text \<open>Four octet values as one address, the first octet in the most significant byte.\<close>

definition pack :: "nat \<Rightarrow> nat \<Rightarrow> nat \<Rightarrow> nat \<Rightarrow> uint32" where
  "pack a b c d = word_of_nat (((a * 256 + b) * 256 + c) * 256 + d)"

text \<open>
  The blocks that \<open>NewIPv4CIDR\<close> returns: a prefix length of at most 32, the netmask and
  the range length derived from it, and the address in standard form.
\<close>

definition valid_block :: "IPv4CIDR \<Rightarrow> bool" where
  "valid_block b \<longleftrightarrow>
     mask_f b \<le> 32 \<and> netmask b = GetNetmask (mask_f b) \<and>
     rangeLength b = GetCIDRRangeLength (mask_f b) \<and> ip b AND netmask b = ip b"

text \<open>
  The inputs that the pattern accepts, read off the text itself: four \<open>.\<close>-separated
  octets in the first \<open>/\<close>-section and at most one more section, a prefix length.
\<close>

definition cidr_text :: "string \<Rightarrow> bool" where
  "cidr_text s \<longleftrightarrow>
     (let secs = strings_Split s CHR ''/'';
          octs = strings_Split (secs ! 0) CHR ''.''
      in length octs = 4 \<and> list_all octet_ok octs \<and>
         (length secs = 1 \<or> length secs = 2 \<and> prefix_ok (secs ! 1)))"

section \<open>Netmask and range length\<close>

lemma unat_MaxBits_minus: "m \<le> 32 \<Longrightarrow> unat (MaxBits - m) = 32 - unat m"
  unfolding MaxBits_def by (simp add: unat_sub)

lemma bit_GetNetmask: "bit (GetNetmask m) i \<longleftrightarrow> unat (MaxBits - m) \<le> i \<and> i < 32"
  by (auto simp add: GetNetmask_def shl_def MaxUInt32_def bit_simps)

lemma unat_GetCIDRRangeLength: "unat (GetCIDRRangeLength m) = 2 ^ unat (MaxBits - m) mod 2 ^ 32"
proof -
  have a: "GetCIDRRangeLength m = word_of_nat (2 ^ unat (MaxBits - m))"
    by (simp add: GetCIDRRangeLength_def word_of_int_2p)
  have b: "unat (word_of_nat (2 ^ unat (MaxBits - m)) :: uint32)
      = 2 ^ unat (MaxBits - m) mod 2 ^ LENGTH(32)"
    by (rule unat_of_nat)
  show ?thesis unfolding a b by simp
qed

lemma HighestBitSet_eq: "HighestBitSet = 2 ^ 31"
  by (simp add: HighestBitSet_def shl_def MaxBits_def)

lemma HighestBitSet_bit: "bit HighestBitSet i \<longleftrightarrow> i = 31"
  by (simp only: HighestBitSet_eq bit_exp_iff) (auto simp add: possible_bit_word)

lemma prefix_mask_GetNetmask: "prefix_mask (GetNetmask m)"
  unfolding prefix_mask_def
proof (intro exI conjI)
  show "min 32 (unat (MaxBits - m)) \<le> 32" by simp
  show "GetNetmask m = NOT (mask (min 32 (unat (MaxBits - m))))"
    by (rule bit_word_eqI) (auto simp add: bit_GetNetmask bit_simps)
qed

lemma bit_shr_mask:
  "bit (shr (NOT (mask k) :: uint32) 1) i \<longleftrightarrow> k \<le> Suc i \<and> i < 31"
  by (auto simp add: shr_def bit_simps)

lemma split_netmask_prefix:
  assumes "k \<le> 32"
  shows "shr (NOT (mask k)) 1 OR HighestBitSet = (NOT (mask (k - 1)) :: uint32)"
  using assms by (intro bit_word_eqI) (auto simp add: bit_shr_mask HighestBitSet_bit bit_simps)

lemma and_absorb_bits:
  fixes a :: uint32
  assumes "a AND x = a" and "\<And>i. bit x i \<Longrightarrow> bit y i"
  shows "a AND y = a"
proof (rule bit_word_eqI)
  fix i assume "i < LENGTH(32)"
  from assms(1) have "bit (a AND x) i = bit a i" by simp
  then have "bit a i \<Longrightarrow> bit x i" by (simp add: bit_and_iff)
  with assms(2) show "bit (a AND y) i = bit a i" by (auto simp add: bit_and_iff)
qed

lemma Split_invariant:
  assumes "standard_form p" and "prefix_mask (netmask p)" and "Split p = Inr (l, u)"
  shows "standard_form l \<and> standard_form u \<and> prefix_mask (netmask l) \<and> prefix_mask (netmask u)"
proof -
  from assms(2) obtain k where k: "k \<le> 32" "netmask p = NOT (mask k)"
    by (auto simp add: prefix_mask_def)
  define nn where "nn = shr (netmask p) 1 OR HighestBitSet"
  have nn: "nn = NOT (mask (k - 1))"
    unfolding nn_def k(2) by (rule split_netmask_prefix [OF k(1)])
  from assms(3) have l: "l = \<lparr>ip = ip p, mask_f = mask_f p + 1, netmask = nn, rangeLength = rangeLength p div 2\<rparr>"
    and u: "u = \<lparr>ip = ip p OR (nn XOR netmask p), mask_f = mask_f p + 1, netmask = nn, rangeLength = rangeLength p div 2\<rparr>"
    by (auto simp add: Split_def Let_def nn_def split: if_splits)
  have sub: "bit (netmask p) i \<Longrightarrow> bit nn i" for i
    unfolding nn k(2) by (auto simp add: bit_simps)
  from assms(1) have a: "ip p AND netmask p = ip p" by (simp add: standard_form_def)
  have 1: "ip p AND nn = ip p" by (rule and_absorb_bits [OF a sub])
  have 2: "(ip p OR (nn XOR netmask p)) AND nn = ip p OR (nn XOR netmask p)"
  proof (rule bit_word_eqI)
    fix i assume "i < LENGTH(32)"
    from 1 have "bit (ip p AND nn) i = bit (ip p) i" by simp
    then have "bit (ip p) i \<Longrightarrow> bit nn i" by (simp add: bit_and_iff)
    with sub show "bit ((ip p OR (nn XOR netmask p)) AND nn) i = bit (ip p OR (nn XOR netmask p)) i"
      by (auto simp add: bit_and_iff bit_or_iff bit_xor_iff)
  qed
  have 3: "prefix_mask nn" unfolding prefix_mask_def nn using k(1) by (intro exI [of _ "k - 1"]) simp
  show ?thesis using 1 2 3 by (simp add: l u standard_form_def)
qed

lemma parse_invariant:
  assumes "parse s std = Inr b"
  shows "standard_form b \<and> prefix_mask (netmask b)"
  using assms
  by (auto simp add: parse_def Let_def standard_form_def Standardize_def CheckStandardized_def
      prefix_mask_GetNetmask word_bw_assocs split: sum.splits if_splits option.splits)

lemma constructed_invariant: "constructed b \<Longrightarrow> standard_form b \<and> prefix_mask (netmask b)"
proof (induction rule: constructed.induct)
  case (New s std b)
  then show ?case by (auto simp add: NewIPv4CIDR_def parse_invariant split: if_splits)
next
  case (Split_lower p l u)
  then show ?case using Split_invariant by blast
next
  case (Split_upper p l u)
  then show ?case using Split_invariant by blast
qed

text \<open>
  C5. For a prefix length from 0 to 32, \<open>GetNetmask\<close> is the all-ones word shifted left
  by 32 minus the prefix length (the bits from there up to bit 31 are set): 0 for prefix
  length 0, all ones for 32. \<open>GetCIDRRangeLength\<close> is 2 to the power of 32 minus the
  prefix length, modulo \<open>2 ^ 32\<close>: 1 for prefix length 32 and 0 for prefix length 0.
\<close>

theorem netmask_and_range_length:
  assumes "m \<le> 32"
  shows "GetNetmask m = push_bit (32 - unat m) (NOT 0)
    \<and> (\<forall>i. bit (GetNetmask m) i \<longleftrightarrow> 32 - unat m \<le> i \<and> i < 32)
    \<and> unat (GetCIDRRangeLength m) = 2 ^ (32 - unat m) mod 2 ^ 32
    \<and> GetNetmask 0 = 0 \<and> GetNetmask 32 = NOT 0
    \<and> GetCIDRRangeLength 32 = 1 \<and> GetCIDRRangeLength 0 = 0"
proof -
  have k: "unat (MaxBits - m) = 32 - unat m"
    by (rule unat_MaxBits_minus [OF assms])
  have 1: "GetNetmask m = push_bit (32 - unat m) (NOT 0)"
    by (simp add: GetNetmask_def shl_def MaxUInt32_def k)
  have 2: "\<forall>i. bit (GetNetmask m) i \<longleftrightarrow> 32 - unat m \<le> i \<and> i < 32"
    by (simp add: bit_GetNetmask k)
  have 3: "unat (GetCIDRRangeLength m) = 2 ^ (32 - unat m) mod 2 ^ 32"
    by (simp only: unat_GetCIDRRangeLength k)
  have 4: "GetNetmask 0 = 0" "GetNetmask 32 = NOT 0"
    by (rule bit_word_eqI, simp add: bit_GetNetmask MaxBits_def)+
  have 5: "GetCIDRRangeLength 32 = 1" "GetCIDRRangeLength 0 = 0"
    by (simp_all add: GetCIDRRangeLength_def MaxBits_def)
  from 1 2 3 4 5 show ?thesis by blast
qed

theorem netmask_and_range_length_witness:
  "(26 :: uint8) \<le> 32 \<and> GetNetmask 26 = push_bit (32 - unat (26 :: uint8)) (NOT 0)
    \<and> unat (GetCIDRRangeLength 26) = 64"
  using netmask_and_range_length [of 26] by simp

lemma and_EightBits: "a AND EightBits = a mod 256"
proof -
  have m8: "(mask 8 :: uint32) = 255" by (simp add: mask_eq_exp_minus_1)
  have "a AND mask 8 = take_bit 8 a" by (simp only: take_bit_eq_mask)
  also have "\<dots> = a mod 2 ^ 8" by (simp only: take_bit_eq_mod)
  finally show ?thesis by (simp add: m8 EightBits_def)
qed

lemma uint_and_EightBits: "nat (uint (a AND EightBits)) = unat a mod 256"
  by (simp add: and_EightBits unat_eq_nat_uint [symmetric] unat_mod_distrib)

lemma strconv_Itoa_byte: "strconv_Itoa (uint (a AND EightBits)) = digits (unat a mod 256)"
  by (simp only: strconv_Itoa_def uint_and_EightBits) simp

lemma unat_shr_GroupSize: "unat (shr a GroupSize) = unat a div 256"
  by (simp add: shr_def GroupSize_def drop_bit_eq_div unat_div_distrib)

lemma ConvertIPToString_loop_4:
  "ConvertIPToString_loop 4 a (replicate 4 []) =
     [digits (unat a div 256 div 256 div 256 mod 256), digits (unat a div 256 div 256 mod 256),
      digits (unat a div 256 mod 256), digits (unat a mod 256)]"
proof -
  have four: "(4::nat) = Suc (Suc (Suc (Suc 0)))" by simp
  show ?thesis
    unfolding four by (simp add: strconv_Itoa_byte unat_shr_GroupSize)
qed

lemma ConvertIPToString_dotted_quad: "ConvertIPToString a = dotted_quad a"
proof -
  have "unat a < 2 ^ 32" using unsigned_less [of a, where 'a = nat] by simp
  then have "unat a div 16777216 < 256" by simp
  then have 1: "unat a div 16777216 mod 256 = unat a div 16777216"
    by (rule mod_less)
  have 2: "x div 256 div 256 div 256 = x div 16777216" "x div 256 div 256 = x div 65536"
    "x div 65536 div 256 = x div 16777216" for x :: nat
    by (simp_all add: div_mult2_eq [symmetric])
  have "ConvertIPToString a = strings_Join
     [digits (unat a div 16777216), digits (unat a div 65536 mod 256),
      digits (unat a div 256 mod 256), digits (unat a mod 256)] ''.''"
    by (simp only: ConvertIPToString_def ConvertIPToString_loop_4 1 2)
  then show ?thesis 
    by (simp add: dotted_quad_def)
qed

(*LEMMAS*)
section \<open>The standard-form invariant\<close>

text \<open>
  C1. Every block returned by \<open>NewIPv4CIDR\<close>, with either value of the standardize
  flag, satisfies \<open>ip AND netmask = ip\<close>, and so do both blocks returned by a
  successful \<open>Split\<close> of a block that was obtained from \<open>NewIPv4CIDR\<close> by any number
  of splits, with respect to their new netmask.
\<close>

theorem standard_form_invariant:
  "(NewIPv4CIDR s std = Inr b \<longrightarrow> ip b AND netmask b = ip b) \<and>
   (constructed p \<and> Split p = Inr (l, u) \<longrightarrow>
      ip l AND netmask l = ip l \<and> ip u AND netmask u = ip u)"
proof -
  have 1: "ip b AND netmask b = ip b" if "NewIPv4CIDR s std = Inr b"
  proof -
    from that have "constructed b" by (rule constructed.New)
    then show ?thesis using constructed_invariant by (simp add: standard_form_def)
  qed
  have 2: "ip l AND netmask l = ip l \<and> ip u AND netmask u = ip u"
    if "constructed p" and "Split p = Inr (l, u)"
  proof -
    from that have "constructed l" "constructed u"
      by (blast intro: constructed.Split_lower constructed.Split_upper)+
    then have "standard_form l" "standard_form u"
      using constructed_invariant by blast+
    then show ?thesis by (simp add: standard_form_def)
  qed
  from 1 2 show ?thesis by blast
qed

lemma NewIPv4CIDR_example:
  "NewIPv4CIDR ''10.10.0.1/26'' True =
     Inr \<lparr>ip = 168427520, mask_f = 26, netmask = 4294967232, rangeLength = 64\<rparr>"
  by code_simp

lemma Split_example:
  "Split \<lparr>ip = 168427520, mask_f = 26, netmask = 4294967232, rangeLength = 64\<rparr> =
     Inr (\<lparr>ip = 168427520, mask_f = 27, netmask = 4294967264, rangeLength = 32\<rparr>,
          \<lparr>ip = 168427552, mask_f = 27, netmask = 4294967264, rangeLength = 32\<rparr>)"
  by code_simp

theorem standard_form_invariant_witness:
  "NewIPv4CIDR ''10.10.0.1/26'' True =
     Inr \<lparr>ip = 168427520, mask_f = 26, netmask = 4294967232, rangeLength = 64\<rparr>
   \<and> (168427520 :: uint32) AND 4294967232 = 168427520
   \<and> constructed \<lparr>ip = 168427520, mask_f = 26, netmask = 4294967232, rangeLength = 64\<rparr>
   \<and> Split \<lparr>ip = 168427520, mask_f = 26, netmask = 4294967232, rangeLength = 64\<rparr> =
     Inr (\<lparr>ip = 168427520, mask_f = 27, netmask = 4294967264, rangeLength = 32\<rparr>,
          \<lparr>ip = 168427552, mask_f = 27, netmask = 4294967264, rangeLength = 32\<rparr>)
   \<and> (168427520 :: uint32) AND 4294967264 = 168427520
   \<and> (168427552 :: uint32) AND 4294967264 = 168427552"
  using standard_form_invariant [of "''10.10.0.1/26''" True
      "\<lparr>ip = 168427520, mask_f = 26, netmask = 4294967232, rangeLength = 64\<rparr>"
      "\<lparr>ip = 168427520, mask_f = 26, netmask = 4294967232, rangeLength = 64\<rparr>"
      "\<lparr>ip = 168427520, mask_f = 27, netmask = 4294967264, rangeLength = 32\<rparr>"
      "\<lparr>ip = 168427552, mask_f = 27, netmask = 4294967264, rangeLength = 32\<rparr>"]
    constructed.New [OF NewIPv4CIDR_example] NewIPv4CIDR_example Split_example
  by simp

section \<open>The n-th address\<close>

text \<open>
  C6. \<open>GetIPInRange(n, withCIDR)\<close> fails with the out-of-range error exactly when
  \<open>n\<close> is greater than the range length of the block. Otherwise it returns the dotted
  quad of \<open>ip + n - 1\<close>, followed by \<open>/\<close> and the prefix length when \<open>withCIDR\<close> is set
  and by nothing when it is not. This holds of every block and every \<open>n\<close>.
\<close>

theorem GetIPInRange_result:
  "(GetIPInRange b n withCIDR = Inl RequestedIPExceedsCIDRRangeError) = (rangeLength b < n)
   \<and> GetIPInRange b n withCIDR =
       (if rangeLength b < n then Inl RequestedIPExceedsCIDRRangeError
        else Inr (dotted_quad (ip b + n - 1) @
                  (if withCIDR then ''/'' @ strconv_Itoa (uint (mask_f b)) else [])))"
  by (simp add: GetIPInRange_def ConvertIPToString_dotted_quad)

text \<open>
  C9. \<open>GetIPInRange\<close> does not reject \<open>n = 0\<close>: \<open>GetIPInRange(0, false)\<close> succeeds on
  every block and returns the dotted quad of \<open>ip - 1\<close> modulo \<open>2 ^ 32\<close>.
\<close>

theorem GetIPInRange_zero:
  "GetIPInRange b 0 False = Inr (dotted_quad (ip b - 1))
   \<and> unat (ip b - 1) = (unat (ip b) + (2 ^ 32 - 1)) mod 2 ^ 32"
proof -
  have "ip b - 1 = ip b + (- 1)" by simp
  also have "unat \<dots> = (unat (ip b) + unat (- 1 :: uint32)) mod 2 ^ LENGTH(32)"
    by (rule unat_word_ariths)
  finally have "unat (ip b - 1) = (unat (ip b) + (2 ^ 32 - 1)) mod 2 ^ 32"
    by (simp add: unsigned_minus_1_eq_mask mask_eq_exp_minus_1)
  then show ?thesis
    by (simp add: GetIPInRange_def ConvertIPToString_dotted_quad)
qed

(*LEMMAS*)
section \<open>The pattern\<close>

lemma char_eq_of_char: "c = d \<longleftrightarrow> (of_char c :: nat) = of_char d"
  by simp

lemma rem_Lit [simp]:
  "q \<in> set (rem (Lit a) s) \<longleftrightarrow> s = a # q"
  by (auto split: list.splits)

lemma rem_CRange [simp]:
  "q \<in> set (rem (CRange lo hi) s) \<longleftrightarrow>
     (\<exists>c. s = c # q \<and> (of_char lo :: nat) \<le> of_char c \<and> (of_char c :: nat) \<le> of_char hi)"
  by (auto split: list.splits)

lemma rem_Seq [simp]:
  "q \<in> set (rem (Seq r1 r2) s) \<longleftrightarrow> (\<exists>t. t \<in> set (rem r1 s) \<and> q \<in> set (rem r2 t))"
  by auto

lemma rem_Alt [simp]:
  "q \<in> set (rem (Alt r1 r2) s) \<longleftrightarrow> q \<in> set (rem r1 s) \<or> q \<in> set (rem r2 s)"
  by auto

lemma rem_Opt [simp]:
  "q \<in> set (rem (Opt r) s) \<longleftrightarrow> q \<in> set (rem r s) \<or> q = s"
  by auto

lemma iter_Suc_set:
  "q \<in> set (iter (Suc n) f s) \<longleftrightarrow> (\<exists>t. t \<in> set (f s) \<and> q \<in> set (iter n f t))"
  by auto

lemma ex_prefix_1: "P [a] \<Longrightarrow> \<exists>p. a # q = p @ q \<and> P p"
  by (rule exI [of _ "[a]"]) simp

lemma ex_prefix_2: "P [a, b] \<Longrightarrow> \<exists>p. a # b # q = p @ q \<and> P p"
  by (rule exI [of _ "[a, b]"]) simp

lemma ex_prefix_3: "P [a, b, c] \<Longrightarrow> \<exists>p. a # b # c # q = p @ q \<and> P p"
  by (rule exI [of _ "[a, b, c]"]) simp

lemma rem_octet_sound:
  assumes "q \<in> set (rem octet_re s)"
  shows "\<exists>p. s = p @ q \<and> octet_ok p"
  using assms
  by (auto simp del: rem.simps simp add: octet_re_def
      intro!: ex_prefix_1 [of octet_ok] ex_prefix_2 [of octet_ok] ex_prefix_3 [of octet_ok])
    (simp_all add: octet_ok_def dec_val_def is_digit_def digit_val_def)

lemma short_list_cases:
  assumes "p \<noteq> []" and "length p \<le> 3"
  obtains a where "p = [a]" | a b where "p = [a, b]" | a b c where "p = [a, b, c]"
proof (cases p)
  case Nil with assms show ?thesis by simp
next
  case (Cons a p1)
  show ?thesis
  proof (cases p1)
    case Nil with Cons that show ?thesis by simp
  next
    case (Cons b p2)
    note c2 = this
    show ?thesis 
    proof (cases p2)
      case Nil with c2 \<open>p = a # p1\<close> that show ?thesis by simp
    next
      case (Cons c p3)
      with c2 \<open>p = a # p1\<close> assms have "p3 = []" by simp
      with Cons c2 \<open>p = a # p1\<close> that show ?thesis by simp
    qed
  qed
qed

lemma rem_octet_1: "octet_ok [a] \<Longrightarrow> q \<in> set (rem octet_re (a # q))"
  by (simp add: octet_re_def octet_ok_def dec_val_def is_digit_def digit_val_def)

lemma rem_octet_2: "octet_ok [a, b] \<Longrightarrow> q \<in> set (rem octet_re (a # b # q))"
  by (simp add: octet_re_def octet_ok_def dec_val_def is_digit_def digit_val_def)

lemma rem_octet_3: "octet_ok [a, b, c] \<Longrightarrow> q \<in> set (rem octet_re (a # b # c # q))"
  by (simp add: octet_re_def octet_ok_def dec_val_def is_digit_def digit_val_def
        char_eq_of_char [of _ "CHR ''2''"] char_eq_of_char [of _ "CHR ''5''"]) arith

lemma rem_octet_complete:
  assumes "octet_ok p"
  shows "q \<in> set (rem octet_re (p @ q))"
proof -
  from assms have "p \<noteq> []" "length p \<le> 3" by (simp_all add: octet_ok_def)
  then show ?thesis
    using assms by (cases rule: short_list_cases) (simp_all add: rem_octet_1 rem_octet_2 rem_octet_3)
qed

lemma rem_octet_iff: "q \<in> set (rem octet_re s) \<longleftrightarrow> (\<exists>p. s = p @ q \<and> octet_ok p)"
  using rem_octet_sound rem_octet_complete by blast

lemma rem_prefix_sound:
  assumes "q \<in> set (rem prefix_re s)"
  shows "\<exists>p. s = p @ q \<and> prefix_ok p"
  using assms
  by (auto simp del: rem.simps simp add: prefix_re_def
      intro!: ex_prefix_1 [of prefix_ok] ex_prefix_2 [of prefix_ok])
    (auto simp add: prefix_ok_def dec_val_def is_digit_def digit_val_def)

lemma rem_prefix_1: "prefix_ok [a] \<Longrightarrow> q \<in> set (rem prefix_re (a # q))"
  by (simp add: prefix_re_def prefix_ok_def dec_val_def is_digit_def digit_val_def)

lemma rem_prefix_2: "prefix_ok [a, b] \<Longrightarrow> q \<in> set (rem prefix_re (a # b # q))"
  by (simp add: prefix_re_def prefix_ok_def dec_val_def is_digit_def digit_val_def
      char_eq_of_char [of _ "CHR ''3''"] char_eq_of_char [of _ "CHR ''0''"]) arith

lemma rem_prefix_complete:
  assumes "prefix_ok p"
  shows "q \<in> set (rem prefix_re (p @ q))"
proof -
  from assms have "p \<noteq> []" "length p \<le> 3" "length p \<noteq> 3" by (simp_all add: prefix_ok_def)
  then show ?thesis
    using assms by (cases rule: short_list_cases) (simp_all add: rem_prefix_1 rem_prefix_2)
qed

lemma rem_prefix_iff: "q \<in> set (rem prefix_re s) \<longleftrightarrow> (\<exists>p. s = p @ q \<and> prefix_ok p)"
  using rem_prefix_sound rem_prefix_complete by blast

lemma rem_octet_dot:
  "q \<in> set (rem (Seq octet_re (Lit CHR ''.'')) s) \<longleftrightarrow>
     (\<exists>p. octet_ok p \<and> s = p @ CHR ''.'' # q)"
  by (auto simp del: rem.simps simp add: rem_octet_iff)

lemma rem_three_octets:
  "q \<in> set (rem (Rep 3 (Seq octet_re (Lit CHR ''.''))) s) \<longleftrightarrow>
     (\<exists>a b c. octet_ok a \<and> octet_ok b \<and> octet_ok c \<and>
        s = a @ CHR ''.'' # b @ CHR ''.'' # c @ CHR ''.'' # q)"
proof -
  have "q \<in> set (rem (Rep 3 (Seq octet_re (Lit CHR ''.''))) s) \<longleftrightarrow>
      (\<exists>t1 t2. t1 \<in> set (rem (Seq octet_re (Lit CHR ''.'')) s) \<and>
         t2 \<in> set (rem (Seq octet_re (Lit CHR ''.'')) t1) \<and>
         q \<in> set (rem (Seq octet_re (Lit CHR ''.'')) t2))"
    by (simp only: rem.simps(6) numeral_3_eq_3 iter_Suc_set iter.simps(1)) auto
  also have "\<dots> \<longleftrightarrow> (\<exists>a b c. octet_ok a \<and> octet_ok b \<and> octet_ok c \<and>
        s = a @ CHR ''.'' # b @ CHR ''.'' # c @ CHR ''.'' # q)"
    unfolding rem_octet_dot
  proof (rule iffI)
    assume "\<exists>t1 t2. (\<exists>p. octet_ok p \<and> s = p @ CHR ''.'' # t1) \<and>
       (\<exists>p. octet_ok p \<and> t1 = p @ CHR ''.'' # t2) \<and> (\<exists>p. octet_ok p \<and> t2 = p @ CHR ''.'' # q)"
    then obtain t1 t2 a b c where "octet_ok a" "s = a @ CHR ''.'' # t1" "octet_ok b"
      "t1 = b @ CHR ''.'' # t2" "octet_ok c" "t2 = c @ CHR ''.'' # q"
      by blast
    then show "\<exists>a b c. octet_ok a \<and> octet_ok b \<and> octet_ok c \<and>
        s = a @ CHR ''.'' # b @ CHR ''.'' # c @ CHR ''.'' # q"
      by blast
  next
    assume "\<exists>a b c. octet_ok a \<and> octet_ok b \<and> octet_ok c \<and>
        s = a @ CHR ''.'' # b @ CHR ''.'' # c @ CHR ''.'' # q"
    then obtain a b c where "octet_ok a" "octet_ok b" "octet_ok c"
      "s = a @ CHR ''.'' # b @ CHR ''.'' # c @ CHR ''.'' # q"
      by blast
    then show "\<exists>t1 t2. (\<exists>p. octet_ok p \<and> s = p @ CHR ''.'' # t1) \<and>
       (\<exists>p. octet_ok p \<and> t1 = p @ CHR ''.'' # t2) \<and> (\<exists>p. octet_ok p \<and> t2 = p @ CHR ''.'' # q)"
      by blast
  qed
  finally show ?thesis .
qed

lemma rem_slash_prefix:
  "[] \<in> set (rem (Opt (Seq (Lit CHR ''/'') prefix_re)) t) \<longleftrightarrow>
     t = [] \<or> (\<exists>m. t = CHR ''/'' # m \<and> prefix_ok m)"
  by (auto simp del: rem.simps simp add: rem_prefix_iff)

lemma regexp_Match_shape:
  "regexp_Match IPv4CIDRRegex s \<longleftrightarrow>
     (\<exists>a b c d t. octet_ok a \<and> octet_ok b \<and> octet_ok c \<and> octet_ok d \<and>
        (t = [] \<or> (\<exists>m. t = CHR ''/'' # m \<and> prefix_ok m)) \<and>
        s = a @ CHR ''.'' # b @ CHR ''.'' # c @ CHR ''.'' # d @ t)"
  unfolding regexp_Match_def IPv4CIDRRegex_def
  apply (simp only: rem_Seq rem_three_octets rem_slash_prefix rem_octet_iff)
  apply (rule iffI)
   apply (elim exE conjE)
  apply blast
  apply (elim exE conjE)
  apply blast
  done

(*LEMMAS*)
section \<open>Splitting and converting the text\<close>

lemma strings_Split_no_sep: "sep \<notin> set p \<Longrightarrow> strings_Split p sep = [p]"
  by (induction p) auto

lemma strings_Split_append:
  "sep \<notin> set p \<Longrightarrow> strings_Split (p @ sep # q) sep = p # strings_Split q sep"
  by (induction p) auto

lemma digits_no_sep:
  assumes "list_all is_digit p"
  shows "CHR ''/'' \<notin> set p" and "CHR ''.'' \<notin> set p"
  using assms by (auto simp add: list_all_iff is_digit_def)

lemma parse_digits_foldl:
  "list_all is_digit p \<Longrightarrow>
     parse_digits p n = Some (foldl (\<lambda>n c. n * 10 + digit_val c) n p)"
  by (induction p arbitrary: n) auto

lemma strconv_Atoi_digits:
  assumes "p \<noteq> []" and "list_all is_digit p" and "dec_val p < 2 ^ 63"
  shows "strconv_Atoi p = Inr (int (dec_val p))"
proof -
  from assms(1) obtain c cs where p: "p = c # cs" by (cases p) auto
  with assms(2) have "is_digit c" by simp
  then have c: "c \<noteq> CHR ''-''" "c \<noteq> CHR ''+''" by (auto simp add: is_digit_def)
  have "parse_digits p 0 = Some (dec_val p)"
    by (simp add: parse_digits_foldl [OF assms(2)] dec_val_def)
  moreover have "int (dec_val p) \<le> 2 ^ 63 - 1" using assms(3) by simp
  ultimately show ?thesis
    using c p by (simp add: strconv_Atoi_def Let_def del: parse_digits.simps)
qed

lemma strconv_Atoi_octet: "octet_ok p \<Longrightarrow> strconv_Atoi p = Inr (int (dec_val p))"
  by (rule strconv_Atoi_digits) (simp_all add: octet_ok_def)

lemma strconv_Atoi_prefix: "prefix_ok p \<Longrightarrow> strconv_Atoi p = Inr (int (dec_val p))"
  by (rule strconv_Atoi_digits) (simp_all add: prefix_ok_def)

lemma shl_GroupSize_or:
  assumes "v < 256"
  shows "shl a GroupSize OR word_of_nat v = a * 256 + word_of_nat v"
proof -
  have v: "word_of_nat v = (take_bit 8 (word_of_nat v) :: uint32)"
    using assms by (simp add: take_bit_of_nat take_bit_nat_eq_self)
  have "push_bit 8 a + take_bit 8 (word_of_nat v) = push_bit 8 a OR take_bit 8 (word_of_nat v :: uint32)"
    by (rule disjunctive_add) (auto simp add: bit_simps)
  then show ?thesis
    using v by (simp add: shl_def GroupSize_def push_bit_eq_mult)
qed

lemma parse_loop_octets:
  assumes "octet_ok a" "octet_ok b" "octet_ok c" "octet_ok d"
  shows "parse_loop 4 [a, b, c, d] 0 0 = Inr (pack (dec_val a) (dec_val b) (dec_val c) (dec_val d))"
proof -
  have four: "(4::nat) = Suc (Suc (Suc (Suc 0)))" by simp
  have v: "dec_val a < 256" "dec_val b < 256" "dec_val c < 256" "dec_val d < 256"
    using assms by (simp_all add: octet_ok_def)
  show ?thesis
    unfolding four
    by (simp add: strconv_Atoi_octet assms shl_GroupSize_or v pack_def)
qed

(*LEMMAS*)
lemma octet_ok_no_sep:
  assumes "octet_ok p"
  shows "CHR ''/'' \<notin> set p" and "CHR ''.'' \<notin> set p"
  using assms digits_no_sep by (simp_all add: octet_ok_def)

lemma prefix_ok_no_sep:
  assumes "prefix_ok p"
  shows "CHR ''/'' \<notin> set p"
  using assms digits_no_sep by (simp add: prefix_ok_def)

lemma strings_Split_octets:
  assumes "octet_ok a" "octet_ok b" "octet_ok c" "octet_ok d"
  shows "strings_Split (a @ CHR ''.'' # b @ CHR ''.'' # c @ CHR ''.'' # d) CHR ''.'' = [a, b, c, d]"
  using assms by (simp add: strings_Split_append strings_Split_no_sep octet_ok_no_sep)

lemma strings_Split_sections:
  assumes "octet_ok a" "octet_ok b" "octet_ok c" "octet_ok d"
  shows "strings_Split (a @ CHR ''.'' # b @ CHR ''.'' # c @ CHR ''.'' # d) CHR ''/'' =
           [a @ CHR ''.'' # b @ CHR ''.'' # c @ CHR ''.'' # d]"
    and "prefix_ok p \<Longrightarrow>
         strings_Split (a @ CHR ''.'' # b @ CHR ''.'' # c @ CHR ''.'' # d @ CHR ''/'' # p) CHR ''/'' =
           [a @ CHR ''.'' # b @ CHR ''.'' # c @ CHR ''.'' # d, p]"
proof -
  let ?body = "a @ CHR ''.'' # b @ CHR ''.'' # c @ CHR ''.'' # d"
  have body: "CHR ''/'' \<notin> set ?body"
    using assms by (simp add: octet_ok_no_sep)
  then show "strings_Split ?body CHR ''/'' = [?body]"
    by (rule strings_Split_no_sep)
  assume "prefix_ok p"
  then have "strings_Split p CHR ''/'' = [p]"
    by (simp add: strings_Split_no_sep prefix_ok_no_sep)
  then have "strings_Split (?body @ CHR ''/'' # p) CHR ''/'' = [?body, p]"
    using strings_Split_append [OF body, of p] by simp
  then show "strings_Split (a @ CHR ''.'' # b @ CHR ''.'' # c @ CHR ''.'' # d @ CHR ''/'' # p) CHR ''/'' =
           [?body, p]"
    by simp
qed

lemma parse_octets_only:
  assumes "octet_ok a" "octet_ok b" "octet_ok c" "octet_ok d"
  shows "parse (a @ CHR ''.'' # b @ CHR ''.'' # c @ CHR ''.'' # d) std =
    (let x = pack (dec_val a) (dec_val b) (dec_val c) (dec_val d);
         nm = GetNetmask 32; rl = GetCIDRRangeLength 32
     in if std then Inr \<lparr>ip = x AND nm, mask_f = 32, netmask = nm, rangeLength = rl\<rparr>
        else if x = x AND nm then Inr \<lparr>ip = x, mask_f = 32, netmask = nm, rangeLength = rl\<rparr>
        else Inl NonStandardizedIPError)"
  by (simp add: parse_def parse_mask_def strings_Split_sections(1) [OF assms]
      strings_Split_octets [OF assms] parse_loop_octets [OF assms] Let_def
      Standardize_def CheckStandardized_def)

lemma parse_octets_prefix:
  assumes "octet_ok a" "octet_ok b" "octet_ok c" "octet_ok d" and "prefix_ok p"
  shows "parse (a @ CHR ''.'' # b @ CHR ''.'' # c @ CHR ''.'' # d @ CHR ''/'' # p) std =
    (let x = pack (dec_val a) (dec_val b) (dec_val c) (dec_val d);
         m = word_of_nat (dec_val p);
         nm = GetNetmask m; rl = GetCIDRRangeLength m
     in if std then Inr \<lparr>ip = x AND nm, mask_f = m, netmask = nm, rangeLength = rl\<rparr>
        else if x = x AND nm then Inr \<lparr>ip = x, mask_f = m, netmask = nm, rangeLength = rl\<rparr>
        else Inl NonStandardizedIPError)"
  by (simp add: parse_def parse_mask_def strings_Split_sections(2) [OF assms]
      strings_Split_octets [OF assms(1-4)] parse_loop_octets [OF assms(1-4)] Let_def
      Standardize_def CheckStandardized_def strconv_Atoi_prefix [OF assms(5)])

section \<open>What \<open>parse\<close> does with a matched input\<close>

lemma prefix_ok_mask_le:
  assumes "prefix_ok p"
  shows "(word_of_nat (dec_val p) :: uint8) \<le> 32"
    and "unat (word_of_nat (dec_val p) :: uint8) = dec_val p"
proof -
  from assms have v: "dec_val p \<le> 32" by (simp add: prefix_ok_def)
  then show u: "unat (word_of_nat (dec_val p) :: uint8) = dec_val p"
    by (simp add: unat_of_nat)
  show "(word_of_nat (dec_val p) :: uint8) \<le> 32"
    using v by (simp add: word_le_nat_alt u)
qed

text \<open>The two shapes of a matched input, and the result of \<open>parse\<close> on each.\<close>

lemma matched_cases:
  assumes "regexp_Match IPv4CIDRRegex s"
  obtains (plain) a b c d where "octet_ok a" "octet_ok b" "octet_ok c" "octet_ok d"
      "s = a @ CHR ''.'' # b @ CHR ''.'' # c @ CHR ''.'' # d"
  | (slash) a b c d p where "octet_ok a" "octet_ok b" "octet_ok c" "octet_ok d" "prefix_ok p"
      "s = a @ CHR ''.'' # b @ CHR ''.'' # c @ CHR ''.'' # d @ CHR ''/'' # p"
proof -
  from assms obtain a b c d t where *: "octet_ok a" "octet_ok b" "octet_ok c" "octet_ok d"
    "t = [] \<or> (\<exists>m. t = CHR ''/'' # m \<and> prefix_ok m)"
    "s = a @ CHR ''.'' # b @ CHR ''.'' # c @ CHR ''.'' # d @ t"
    unfolding regexp_Match_shape by blast
  from *(5) show ?thesis
  proof
    assume "t = []"
    with * show ?thesis by (intro plain [of a b c d]) simp_all
  next
    assume "\<exists>m. t = CHR ''/'' # m \<and> prefix_ok m"
    then obtain m where "t = CHR ''/'' # m" "prefix_ok m" by blast
    with * show ?thesis by (intro slash [of a b c d m]) simp_all
  qed
qed

lemma parse_matched:
  assumes "regexp_Match IPv4CIDRRegex s"
  shows "\<exists>x m. m \<le> 32 \<and> parse s std =
    (if std then Inr \<lparr>ip = x AND GetNetmask m, mask_f = m, netmask = GetNetmask m,
                      rangeLength = GetCIDRRangeLength m\<rparr>
     else if x = x AND GetNetmask m
       then Inr \<lparr>ip = x, mask_f = m, netmask = GetNetmask m,
                 rangeLength = GetCIDRRangeLength m\<rparr>
       else Inl NonStandardizedIPError)"
  using assms
proof (cases rule: matched_cases)
  case (plain a b c d)
  show ?thesis
    unfolding plain(5) parse_octets_only [OF plain(1-4)] Let_def
    by (intro exI [of _ "pack (dec_val a) (dec_val b) (dec_val c) (dec_val d)"] exI [of _ 32]) simp
next
  case (slash a b c d p)
  show ?thesis
    unfolding slash(6) parse_octets_prefix [OF slash(1-5)] Let_def
    by (intro exI [of _ "pack (dec_val a) (dec_val b) (dec_val c) (dec_val d)"]
        exI [of _ "word_of_nat (dec_val p)"]) (simp add: prefix_ok_mask_le(1) [OF slash(5)])
qed

lemma NewIPv4CIDR_valid:
  assumes "NewIPv4CIDR s std = Inr b"
  shows "valid_block b"
proof -
  from assms have m: "regexp_Match IPv4CIDRRegex s" and p: "parse s std = Inr b"
    by (auto simp add: NewIPv4CIDR_def split: if_splits)
  from parse_matched [OF m, of std] p show ?thesis
    by (auto simp add: valid_block_def word_bw_assocs split: if_splits)
qed

(*LEMMAS*)
lemma octet_ok_Atoi: "octet_ok p \<Longrightarrow> \<exists>v. strconv_Atoi p = Inr v \<and> 0 \<le> v \<and> v \<le> 255"
  by (simp add: strconv_Atoi_octet) (simp add: octet_ok_def)

lemma prefix_ok_Atoi: "prefix_ok p \<Longrightarrow> \<exists>v. strconv_Atoi p = Inr v \<and> 0 \<le> v \<and> v \<le> 32"
  by (simp add: strconv_Atoi_prefix) (simp add: prefix_ok_def)

text \<open>
  C10. When the input matches the pattern, its first \<open>/\<close>-section splits into exactly
  four \<open>.\<close>-separated octets, each of which \<open>strconv.Atoi\<close> converts to a number from 0
  to 255; there are one or two \<open>/\<close>-sections, and the second one converts to a number
  from 0 to 32. So the only error \<open>parse\<close> can return is the one for a non-standard
  address, and with the standardize flag it returns a block.
\<close>

theorem conversion_errors_unreachable:
  assumes "regexp_Match IPv4CIDRRegex s"
  shows "(\<exists>a b c d. strings_Split (strings_Split s CHR ''/'' ! 0) CHR ''.'' = [a, b, c, d] \<and>
            (\<forall>x \<in> set [a, b, c, d]. \<exists>v. strconv_Atoi x = Inr v \<and> 0 \<le> v \<and> v \<le> 255))
       \<and> (length (strings_Split s CHR ''/'') = 1 \<or>
           length (strings_Split s CHR ''/'') = 2 \<and>
           (\<exists>v. strconv_Atoi (strings_Split s CHR ''/'' ! 1) = Inr v \<and> 0 \<le> v \<and> v \<le> 32))
       \<and> (\<forall>e. parse s std = Inl e \<longrightarrow> e = NonStandardizedIPError)
       \<and> (\<exists>b. parse s True = Inr b)"
proof -
  have 1: "(\<exists>a b c d. strings_Split (strings_Split s CHR ''/'' ! 0) CHR ''.'' = [a, b, c, d] \<and>
            (\<forall>x \<in> set [a, b, c, d]. \<exists>v. strconv_Atoi x = Inr v \<and> 0 \<le> v \<and> v \<le> 255))
       \<and> (length (strings_Split s CHR ''/'') = 1 \<or>
           length (strings_Split s CHR ''/'') = 2 \<and>
           (\<exists>v. strconv_Atoi (strings_Split s CHR ''/'' ! 1) = Inr v \<and> 0 \<le> v \<and> v \<le> 32))"
    using assms
  proof (cases rule: matched_cases)
    case (plain a b c d)
    show ?thesis
      unfolding plain(5) strings_Split_sections(1) [OF plain(1-4)]
      using plain(1-4) by (simp add: strings_Split_octets octet_ok_Atoi)
  next
    case (slash a b c d p)
    show ?thesis
      unfolding slash(6) strings_Split_sections(2) [OF slash(1-5)]
      using slash(1-5) by (simp add: strings_Split_octets octet_ok_Atoi prefix_ok_Atoi)
  qed
  from parse_matched [OF assms, of std]
  have 2: "\<forall>e. parse s std = Inl e \<longrightarrow> e = NonStandardizedIPError"
    by (auto split: if_splits)
  from parse_matched [OF assms, of True]
  have 3: "\<exists>b. parse s True = Inr b"
    by auto
  from 1 2 3 show ?thesis by blast
qed

theorem conversion_errors_unreachable_witness:
  "regexp_Match IPv4CIDRRegex ''10.10.0.1/26''
   \<and> strings_Split (strings_Split ''10.10.0.1/26'' CHR ''/'' ! 0) CHR ''.'' =
        [''10'', ''10'', ''0'', ''1'']
   \<and> strings_Split ''10.10.0.1/26'' CHR ''/'' ! 1 = ''26''
   \<and> parse ''10.10.0.1/26'' False = Inl NonStandardizedIPError
   \<and> (\<exists>b. parse ''10.10.0.1/26'' True = Inr b)"
proof -
  have m: "regexp_Match IPv4CIDRRegex ''10.10.0.1/26''"
    by code_simp
  have e: "strings_Split (strings_Split ''10.10.0.1/26'' CHR ''/'' ! 0) CHR ''.'' =
        [''10'', ''10'', ''0'', ''1'']"
    "strings_Split ''10.10.0.1/26'' CHR ''/'' ! 1 = ''26''"
    "parse ''10.10.0.1/26'' False = Inl NonStandardizedIPError"
    by code_simp+
  from conversion_errors_unreachable [OF m, of False] m e show ?thesis
    by blast
qed

section \<open>Splitting a block\<close>

lemma GetCIDRRangeLength_eq_1:
  assumes "m \<le> 32"
  shows "GetCIDRRangeLength m = 1 \<longleftrightarrow> m = 32"
proof -
  have "unat (GetCIDRRangeLength m) = 2 ^ (32 - unat m) mod 2 ^ 32"
    by (simp only: unat_GetCIDRRangeLength unat_MaxBits_minus [OF assms])
  moreover have "(2::nat) ^ (32 - unat m) mod 2 ^ 32 = 1 \<longleftrightarrow> unat m = 32"
  proof (cases "unat m = 0")
    case True
    then show ?thesis by simp
  next
    case False
    then have "32 - unat m < 32" by simp
    then have "(2::nat) ^ (32 - unat m) < 2 ^ 32" by (rule power_strict_increasing) simp
    then have "(2::nat) ^ (32 - unat m) mod 2 ^ 32 = 2 ^ (32 - unat m)" by (rule mod_less)
    moreover have "unat m \<le> 32" using assms by (simp add: word_le_nat_alt)
    moreover have "(2::nat) ^ k = 1 \<longleftrightarrow> k = 0" for k by simp
    ultimately show ?thesis by (simp only:) auto
  qed
  moreover have "GetCIDRRangeLength m = 1 \<longleftrightarrow> unat (GetCIDRRangeLength m) = 1"
    by (simp add: word_eq_iff_unsigned [where ?'a = nat, of _ 1])
  moreover have "m = 32 \<longleftrightarrow> unat m = 32"
    by (simp add: word_eq_iff_unsigned [where ?'a = nat, of m 32])
  ultimately show ?thesis by simp
qed

text \<open>
  C7. \<open>Split\<close> fails with the error for a block that cannot be split exactly when the
  range length is 1, and it has no other error: in every other case it returns two
  blocks. On a block returned by \<open>NewIPv4CIDR\<close> the range length is 1 exactly when the
  prefix length is 32.
\<close>

theorem Split_error:
  "(Split b = Inl NoMoreSplittingPossibleError) = (rangeLength b = 1)
   \<and> (\<forall>e. Split b = Inl e \<longrightarrow> e = NoMoreSplittingPossibleError)
   \<and> (rangeLength b \<noteq> 1 \<longrightarrow> (\<exists>l u. Split b = Inr (l, u)))
   \<and> (NewIPv4CIDR s std = Inr b \<longrightarrow> (rangeLength b = 1) = (mask_f b = 32))"
proof -
  have "valid_block b \<Longrightarrow> (rangeLength b = 1) = (mask_f b = 32)"
    by (simp add: valid_block_def GetCIDRRangeLength_eq_1)
  then show ?thesis
    using NewIPv4CIDR_valid [of s std b] by (auto simp add: Split_def Let_def)
qed

lemma NewIPv4CIDR_single:
  "NewIPv4CIDR ''10.10.0.0/32'' False =
     Inr \<lparr>ip = 168427520, mask_f = 32, netmask = 4294967295, rangeLength = 1\<rparr>"
  by code_simp

theorem Split_error_witness:
  "NewIPv4CIDR ''10.10.0.0/32'' False =
     Inr \<lparr>ip = 168427520, mask_f = 32, netmask = 4294967295, rangeLength = 1\<rparr>
   \<and> Split \<lparr>ip = 168427520, mask_f = 32, netmask = 4294967295, rangeLength = 1\<rparr> =
       Inl NoMoreSplittingPossibleError
   \<and> (\<exists>l u. Split \<lparr>ip = 168427520, mask_f = 26, netmask = 4294967232, rangeLength = 64\<rparr> =
         Inr (l, u))"
  using Split_error [of "\<lparr>ip = 168427520, mask_f = 32, netmask = 4294967295, rangeLength = 1\<rparr>"
      "''10.10.0.0/32''" False]
    Split_error [of "\<lparr>ip = 168427520, mask_f = 26, netmask = 4294967232, rangeLength = 64\<rparr>"
      "''10.10.0.1/26''" True]
    NewIPv4CIDR_single
  by simp

(*LEMMAS*)
section \<open>The text of a block and its round trip\<close>

lemma digit_char_props:
  assumes "d < 10"
  shows "is_digit (digit_char d)" and "digit_val (digit_char d) = d"
    and "(of_char (digit_char d) :: nat) = 48 + d"
  using assms by (simp_all add: is_digit_def digit_val_def digit_char_def)

lemma digits_1: "v < 10 \<Longrightarrow> digits v = [digit_char v]"
  by (simp add: digits.simps)

lemma digits_2:
  "10 \<le> v \<Longrightarrow> v < 100 \<Longrightarrow> digits v = [digit_char (v div 10), digit_char (v mod 10)]"
  by (subst digits.simps) (simp add: digits_1)

lemma digits_3:
  "100 \<le> v \<Longrightarrow> v < 1000 \<Longrightarrow>
     digits v = [digit_char (v div 100), digit_char (v div 10 mod 10), digit_char (v mod 10)]"
  by (subst digits.simps) (simp add: digits_2 div_mult2_eq [symmetric])

lemma digits_octet:
  assumes "v < 256"
  shows "octet_ok (digits v)" and "dec_val (digits v) = v"
proof -
  consider "v < 10" | "10 \<le> v" "v < 100" | "100 \<le> v" "v < 1000"
    using assms by linarith
  then have "octet_ok (digits v) \<and> dec_val (digits v) = v"
  proof cases
    case 1
    then show ?thesis
      using assms by (simp add: digits_1 octet_ok_def dec_val_def digit_char_props)
  next
    case 2
    then have "v div 10 < 10" by simp
    with 2 show ?thesis
      using assms by (simp add: digits_2 octet_ok_def dec_val_def digit_char_props)
  next
    case 3
    then have "v div 100 < 10" by simp
    moreover have "v div 100 * 100 + v div 10 mod 10 * 10 + v mod 10 = v"
    proof -
      have "v div 10 * 10 + v mod 10 = v" by (rule div_mult_mod_eq)
      moreover have "v div 10 div 10 * 10 + v div 10 mod 10 = v div 10" by (rule div_mult_mod_eq)
      moreover have "v div 10 div 10 = v div 100" by (simp add: div_mult2_eq [symmetric])
      ultimately show ?thesis by linarith
    qed
    ultimately show ?thesis
      using 3 assms by (simp add: digits_3 octet_ok_def dec_val_def digit_char_props)
  qed
  then show "octet_ok (digits v)" and "dec_val (digits v) = v" by simp_all
qed

lemma digits_prefix:
  assumes "v \<le> 32"
  shows "prefix_ok (digits v)" and "dec_val (digits v) = v"
proof -
  consider "v < 10" | "10 \<le> v" "v < 100"
    using assms by linarith
  then have "prefix_ok (digits v) \<and> dec_val (digits v) = v"
  proof cases
    case 1
    then show ?thesis
      using assms by (simp add: digits_1 prefix_ok_def dec_val_def digit_char_props)
  next
    case 2
    then have d: "v div 10 < 10" "0 < v div 10" by simp_all
    then have "(of_char (digit_char (v div 10)) :: nat) \<noteq> of_char CHR ''0''"
      by (simp add: digit_char_props)
    then have "digit_char (v div 10) \<noteq> CHR ''0''"
      by (simp only: char_eq_of_char [of _ "CHR ''0''"] not_False_eq_True)
    with 2 d show ?thesis
      using assms by (simp add: digits_2 prefix_ok_def dec_val_def digit_char_props)
  qed
  then show "prefix_ok (digits v)" and "dec_val (digits v) = v" by simp_all
qed

lemma pack_bytes:
  "pack (unat a div 16777216) (unat a div 65536 mod 256) (unat a div 256 mod 256)
     (unat a mod 256) = a"
proof -
  have "((x div 16777216 * 256 + x div 65536 mod 256) * 256 + x div 256 mod 256) * 256
      + x mod 256 = x" for x :: nat
  proof -
    have 1: "x div 256 * 256 + x mod 256 = x" by (rule div_mult_mod_eq)
    have "x div 256 div 256 * 256 + x div 256 mod 256 = x div 256"
      by (rule div_mult_mod_eq)
    moreover have "x div 256 div 256 = x div 65536"
      by (simp add: div_mult2_eq [symmetric])
    ultimately have 2: "x div 65536 * 256 + x div 256 mod 256 = x div 256"
      by simp
    have "x div 65536 div 256 * 256 + x div 65536 mod 256 = x div 65536"
      by (rule div_mult_mod_eq)
    moreover have "x div 65536 div 256 = x div 16777216"
      by (simp add: div_mult2_eq [symmetric])
    ultimately have 3: "x div 16777216 * 256 + x div 65536 mod 256 = x div 65536"
      by simp
    show ?thesis by (simp only: 3 2 1)
  qed
  then show ?thesis by (simp only: pack_def) simp
qed

lemma ToString_eq:
  "ToString b = dotted_quad (ip b) @ CHR ''/'' # digits (unat (mask_f b))"
  by (simp add: ToString_def ConvertIPToString_dotted_quad strconv_Itoa_def)

lemma byte_bounds:
  "unat (a :: uint32) div 16777216 < 256" "unat a div 65536 mod 256 < 256"
  "unat a div 256 mod 256 < 256" "unat a mod 256 < 256"
proof -
  have "unat a < 2 ^ 32" using unsigned_less [of a, where 'a = nat] by simp
  then show "unat a div 16777216 < 256" by simp
qed simp_all

lemma NewIPv4CIDR_ToString:
  assumes "valid_block b"
  shows "NewIPv4CIDR (ToString b) std = Inr b"
proof -
  let ?o1 = "digits (unat (ip b) div 16777216)"
  let ?o2 = "digits (unat (ip b) div 65536 mod 256)"
  let ?o3 = "digits (unat (ip b) div 256 mod 256)"
  let ?o4 = "digits (unat (ip b) mod 256)"
  let ?p = "digits (unat (mask_f b))"
  from assms have m: "unat (mask_f b) \<le> 32"
    by (simp add: valid_block_def word_le_nat_alt)
  note ok = digits_octet(1) [OF byte_bounds(1), of "ip b"] digits_octet(1) [OF byte_bounds(2), of "ip b"]
    digits_octet(1) [OF byte_bounds(3), of "ip b"] digits_octet(1) [OF byte_bounds(4), of "ip b"]
  note pk = digits_prefix [OF m]
  have s: "ToString b = ?o1 @ CHR ''.'' # ?o2 @ CHR ''.'' # ?o3 @ CHR ''.'' # ?o4 @ CHR ''/'' # ?p"
    by (simp add: ToString_eq dotted_quad_def)
  have match: "regexp_Match IPv4CIDRRegex (ToString b)"
    unfolding regexp_Match_shape s using ok pk(1) by blast
  have x: "pack (dec_val ?o1) (dec_val ?o2) (dec_val ?o3) (dec_val ?o4) = ip b"
    by (simp only: digits_octet(2) [OF byte_bounds(1)] digits_octet(2) [OF byte_bounds(2)]
        digits_octet(2) [OF byte_bounds(3)] digits_octet(2) [OF byte_bounds(4)] pack_bytes)
  have k: "(word_of_nat (dec_val ?p) :: uint8) = mask_f b"
    by (simp only: pk(2)) simp
  have e: "ip b AND GetNetmask (mask_f b) = ip b"
    using assms by (auto simp add: valid_block_def)
  have r: "\<lparr>ip = ip b, mask_f = mask_f b, netmask = GetNetmask (mask_f b),
      rangeLength = GetCIDRRangeLength (mask_f b)\<rparr> = b"
    using assms by (cases b) (auto simp add: valid_block_def)
  have "parse (ToString b) std = Inr b"
    unfolding s parse_octets_prefix [OF ok pk(1)] x k Let_def
    by (simp add: e r)
  with match show ?thesis by (simp add: NewIPv4CIDR_def)
qed

text \<open>
  C4. When \<open>NewIPv4CIDR\<close> accepts an input, it returns a block for it with the
  standardize flag set. \<open>ToString\<close> of that block is the dotted quad of its address,
  which is in standard form, followed by \<open>/\<close> and the prefix length, and \<open>NewIPv4CIDR\<close>
  without standardization turns this text into the same block again.
\<close>

theorem ToString_round_trip:
  assumes "NewIPv4CIDR s std = Inr b0"
  shows "\<exists>b. NewIPv4CIDR s True = Inr b
       \<and> ToString b = dotted_quad (ip b) @ ''/'' @ digits (unat (mask_f b))
       \<and> ip b AND netmask b = ip b
       \<and> NewIPv4CIDR (ToString b) False = Inr b"
proof -
  from assms have m: "regexp_Match IPv4CIDRRegex s"
    by (auto simp add: NewIPv4CIDR_def split: if_splits)
  from parse_matched [OF m, of True] obtain b where b: "NewIPv4CIDR s True = Inr b"
    using m by (auto simp add: NewIPv4CIDR_def)
  then have v: "valid_block b" by (rule NewIPv4CIDR_valid)
  then have "ip b AND netmask b = ip b" by (auto simp add: valid_block_def)
  moreover have "NewIPv4CIDR (ToString b) False = Inr b"
    by (rule NewIPv4CIDR_ToString [OF v])
  ultimately show ?thesis using b by (simp add: ToString_eq)
qed

lemma ToString_example:
  "ToString \<lparr>ip = 168427520, mask_f = 26, netmask = 4294967232, rangeLength = 64\<rparr> =
     ''10.10.0.0/26''"
  by code_simp

theorem ToString_round_trip_witness:
  "NewIPv4CIDR ''10.10.0.1/26'' True =
     Inr \<lparr>ip = 168427520, mask_f = 26, netmask = 4294967232, rangeLength = 64\<rparr>
   \<and> ToString \<lparr>ip = 168427520, mask_f = 26, netmask = 4294967232, rangeLength = 64\<rparr> =
       ''10.10.0.0/26''
   \<and> NewIPv4CIDR ''10.10.0.0/26'' False =
       Inr \<lparr>ip = 168427520, mask_f = 26, netmask = 4294967232, rangeLength = 64\<rparr>"
proof -
  from ToString_round_trip [OF NewIPv4CIDR_example]
  have "NewIPv4CIDR
      (ToString \<lparr>ip = 168427520, mask_f = 26, netmask = 4294967232, rangeLength = 64\<rparr>) False =
      Inr \<lparr>ip = 168427520, mask_f = 26, netmask = 4294967232, rangeLength = 64\<rparr>"
    by (auto simp add: NewIPv4CIDR_example)
  then show ?thesis
    by (simp add: NewIPv4CIDR_example ToString_example)
qed

section \<open>The inputs that are rejected\<close>

lemma strings_Split_not_Nil: "strings_Split s sep \<noteq> []"
  by (cases s) (simp_all add: Let_def)

lemma strings_Join_Cons_Cons:
  "strings_Join ((x # h) # t) sep = x # strings_Join (h # t) sep"
  by (cases t) simp_all

lemma strings_Join_Split: "strings_Join (strings_Split s sep) [sep] = s"
proof (induction s)
  case Nil
  show ?case by simp
next
  case (Cons c cs)
  obtain h t where r: "strings_Split cs sep = h # t"
    using strings_Split_not_Nil [of cs sep] by (cases "strings_Split cs sep") auto
  with Cons show ?case
    by (simp add: Let_def strings_Join_Cons_Cons)
qed

lemma length_4_cases:
  assumes "length xs = 4"
  obtains a b c d where "xs = [a, b, c, d]"
  using assms by (auto simp add: length_Suc_conv eval_nat_numeral)

lemma cidr_text_matches:
  assumes "cidr_text s"
  shows "regexp_Match IPv4CIDRRegex s"
proof -
  let ?secs = "strings_Split s CHR ''/''"
  from assms have l: "length (strings_Split (?secs ! 0) CHR ''.'') = 4"
    and ok: "list_all octet_ok (strings_Split (?secs ! 0) CHR ''.'')"
    and p: "length ?secs = 1 \<or> length ?secs = 2 \<and> prefix_ok (?secs ! 1)"
    by (simp_all add: cidr_text_def Let_def)
  from l obtain a b c d where o: "strings_Split (?secs ! 0) CHR ''.'' = [a, b, c, d]"
    by (rule length_4_cases)
  have "strings_Join (strings_Split (?secs ! 0) CHR ''.'') ''.'' = ?secs ! 0"
    by (rule strings_Join_Split)
  then have body: "?secs ! 0 = a @ CHR ''.'' # b @ CHR ''.'' # c @ CHR ''.'' # d"
    by (simp add: o)
  have s: "strings_Join ?secs ''/'' = s"
    by (rule strings_Join_Split)
  from p show ?thesis
  proof
    assume "length ?secs = 1"
    then obtain x where x: "?secs = [x]" by (auto simp add: length_Suc_conv)
    with s body have "s = a @ CHR ''.'' # b @ CHR ''.'' # c @ CHR ''.'' # d @ []" by simp
    with ok o show ?thesis unfolding regexp_Match_shape by (simp del: append_Nil2) blast
  next
    assume "length ?secs = 2 \<and> prefix_ok (?secs ! 1)"
    then obtain x y where x: "?secs = [x, y]" and y: "prefix_ok y"
      by (auto simp add: length_Suc_conv eval_nat_numeral)
    with s body have "s = a @ CHR ''.'' # b @ CHR ''.'' # c @ CHR ''.'' # d @ CHR ''/'' # y"
      by simp
    with ok o y show ?thesis unfolding regexp_Match_shape by simp blast
  qed
qed

lemma matches_cidr_text:
  assumes "regexp_Match IPv4CIDRRegex s"
  shows "cidr_text s"
  using assms
proof (cases rule: matched_cases)
  case (plain a b c d)
  show ?thesis
    unfolding plain(5) cidr_text_def strings_Split_sections(1) [OF plain(1-4)]
    using plain(1-4) by (simp add: strings_Split_octets)
next
  case (slash a b c d p)
  show ?thesis
    unfolding slash(6) cidr_text_def strings_Split_sections(2) [OF slash(1-5)]
    using slash(1-5) by (simp add: strings_Split_octets)
qed

lemma regexp_Match_cidr_text: "regexp_Match IPv4CIDRRegex s \<longleftrightarrow> cidr_text s"
  using cidr_text_matches matches_cidr_text by blast

(*LEMMAS*)
text \<open>
  C8 as stated fails: \<open>010.10.0.0/26\<close> has an octet with a leading zero and is accepted,
  as the block of \<open>10.10.0.0/26\<close>.
\<close>

theorem leading_zero_octet_accepted:
  "NewIPv4CIDR ''010.10.0.0/26'' False \<noteq> Inl InvalidIPv4CIDRError
   \<and> NewIPv4CIDR ''010.10.0.0/26'' False =
       Inr \<lparr>ip = 168427520, mask_f = 26, netmask = 4294967232, rangeLength = 64\<rparr>"
  by code_simp

lemma octet_ok_leading_zero:
  "octet_ok (CHR ''0'' # z) \<longleftrightarrow> length z \<le> 2 \<and> list_all is_digit z"
proof
  assume "octet_ok (CHR ''0'' # z)"
  then show "length z \<le> 2 \<and> list_all is_digit z"
    by (simp add: octet_ok_def)
next
  assume a: "length z \<le> 2 \<and> list_all is_digit z"
  then consider "z = []" | x where "z = [x]" | x y where "z = [x, y]"
    by (cases z; cases "tl z") (auto simp add: Suc_le_eq)
  then show "octet_ok (CHR ''0'' # z)"
  proof cases
    case 1
    then show ?thesis by (simp add: octet_ok_def dec_val_def is_digit_def digit_val_def)
  next
    case 2
    with a show ?thesis by (auto simp add: octet_ok_def dec_val_def is_digit_def digit_val_def)
  next
    case 3
    with a show ?thesis by (auto simp add: octet_ok_def dec_val_def is_digit_def digit_val_def)
  qed
qed

text \<open>
  C8 as amended. \<open>NewIPv4CIDR\<close> rejects an input with the invalid-format error exactly
  when it is not made of four \<open>.\<close>-separated octets, each one to three decimal digits of
  value at most 255, optionally followed by \<open>/\<close> and a prefix length of one or two
  digits, at most 32 and without a leading zero. An octet that starts with a zero is
  such an octet exactly when at most two digits follow the zero: a leading zero is
  rejected only in an octet of more than three digits.
\<close>

theorem invalid_format_iff:
  "(NewIPv4CIDR s std = Inl InvalidIPv4CIDRError) = (\<not> cidr_text s)
   \<and> octet_ok (CHR ''0'' # z) = (length z \<le> 2 \<and> list_all is_digit z)"
proof -
  have "NewIPv4CIDR s std \<noteq> Inl InvalidIPv4CIDRError" if "regexp_Match IPv4CIDRRegex s"
    using parse_matched [OF that, of std] that
    by (auto simp add: NewIPv4CIDR_def split: if_splits)
  moreover have "NewIPv4CIDR s std = Inl InvalidIPv4CIDRError"
    if "\<not> regexp_Match IPv4CIDRRegex s"
    using that by (simp add: NewIPv4CIDR_def)
  ultimately have "(NewIPv4CIDR s std = Inl InvalidIPv4CIDRError) = (\<not> cidr_text s)"
    unfolding regexp_Match_cidr_text [symmetric] by blast
  then show ?thesis by (simp only: octet_ok_leading_zero)
qed

theorem invalid_format_iff_witness:
  "NewIPv4CIDR ''0010.10.0.0/26'' False = Inl InvalidIPv4CIDRError
   \<and> NewIPv4CIDR ''001.010.0.00/26'' False \<noteq> Inl InvalidIPv4CIDRError"
proof -
  have c: "\<not> cidr_text ''0010.10.0.0/26''" "cidr_text ''001.010.0.00/26''"
    by code_simp+
  from invalid_format_iff [of "''0010.10.0.0/26''" False "''10''"]
    invalid_format_iff [of "''001.010.0.00/26''" False "''010''"] c
  show ?thesis by simp
qed

(*LEMMAS*)
section \<open>Prefix lengths from 1 to 32\<close>

text \<open>
  The range length of a prefix length from 1 to 32 fits the \<open>uint32\<close>. On the blocks
  of these prefix lengths the first address is the address of the block, and \<open>Split\<close>
  returns two halves that are adjacent and together as long as the block.
\<close>

lemma GetCIDRRangeLength_power:
  assumes "m \<le> 32"
  shows "GetCIDRRangeLength m = 2 ^ (32 - unat m)"
  by (simp add: GetCIDRRangeLength_def unat_MaxBits_minus [OF assms] word_of_int_2p)

lemma GetNetmask_mask:
  assumes "m \<le> 32"
  shows "GetNetmask m = NOT (mask (32 - unat m))"
  by (simp add: GetNetmask_def shl_def MaxUInt32_def unat_MaxBits_minus [OF assms])

lemma valid_block_positive:
  assumes "valid_block b" and "mask_f b \<noteq> 0"
  shows "rangeLength b \<noteq> 0"
proof -
  from assms have m: "mask_f b \<le> 32" and r: "rangeLength b = GetCIDRRangeLength (mask_f b)"
    by (auto simp add: valid_block_def)
  from assms(2) have "unat (mask_f b) \<noteq> 0" by (simp add: unat_eq_0)
  then have "32 - unat (mask_f b) < 32" by simp
  then have "(2 :: uint32) ^ (32 - unat (mask_f b)) \<noteq> 0"
    by (simp add: power_eq_0_iff) 
  then show ?thesis by (simp add: r GetCIDRRangeLength_power [OF m])
qed

lemma GetIPInRange_first:
  assumes "valid_block b" and "mask_f b \<noteq> 0"
  shows "GetIPInRange b 1 False = Inr (GetIP b)"
proof -
  from valid_block_positive [OF assms] have "\<not> rangeLength b < 1"
    by (simp add: word_less_1)
  then show ?thesis by (simp add: GetIPInRange_def GetIP_def)
qed

lemma Split_partition:
  assumes "valid_block p" and "mask_f p \<noteq> 0" and "Split p = Inr (l, u)"
  shows "rangeLength l + rangeLength u = rangeLength p \<and> ip l < ip u \<and>
    ip u = ip l + rangeLength l"
proof -
  define k where "k = 32 - unat (mask_f p)"
  from assms(1) have m: "mask_f p \<le> 32" and r: "rangeLength p = 2 ^ k"
    and nm: "netmask p = NOT (mask k)" and st: "ip p AND netmask p = ip p"
    by (auto simp add: valid_block_def GetCIDRRangeLength_power GetNetmask_mask k_def)
  from assms(3) have "rangeLength p \<noteq> 1" by (auto simp add: Split_def split: if_splits)
  then have "mask_f p \<noteq> 32"
    using assms(1) by (auto simp add: valid_block_def GetCIDRRangeLength_eq_1)
  then have "unat (mask_f p) \<noteq> 32"
    by (simp add: word_eq_iff_unsigned [where ?'a = nat, of _ 32])
  moreover from assms(2) have "unat (mask_f p) \<noteq> 0" by (simp add: unat_eq_0)
  moreover from m have "unat (mask_f p) \<le> 32" by (simp add: word_le_nat_alt)
  ultimately have k: "0 < k" "k < 32" by (simp_all add: k_def)
  define x :: uint32 where "x = 2 ^ (k - 1)"
  have half: "rangeLength p div 2 = x"
    unfolding r x_def
  proof (rule bit_word_eqI)
    fix i assume "i < LENGTH(32)"
    have "(2 :: uint32) ^ k div 2 = drop_bit 1 (2 ^ k)" by (simp add: drop_bit_eq_div)
    then show "bit ((2 :: uint32) ^ k div 2) i = bit ((2 :: uint32) ^ (k - 1)) i"
      using k \<open>i < LENGTH(32)\<close> by (auto simp add: bit_simps bit_exp_iff possible_bit_word)
  qed
  have dbl: "x + x = rangeLength p"
  proof -
    have "x + x = 2 * 2 ^ (k - 1)" by (simp add: x_def)
    also have "\<dots> = 2 ^ Suc (k - 1)" by (simp only: power_Suc)
    finally show ?thesis using k by (simp add: r)
  qed
  have nn: "shr (netmask p) 1 OR HighestBitSet = NOT (mask (k - 1))"
    unfolding nm using k by (intro split_netmask_prefix) simp
  have xr: "NOT (mask (k - 1)) XOR NOT (mask k) = x"
    unfolding x_def using k
    by (intro bit_word_eqI) (auto simp add: bit_simps bit_exp_iff possible_bit_word)
  have xr': "(shr (netmask p) 1 OR HighestBitSet) XOR netmask p = x"
    unfolding nn unfolding nm by (rule xr)
  from assms(3) have raw: "ip l = ip p" "rangeLength l = rangeLength p div 2"
    "rangeLength u = rangeLength p div 2"
    "ip u = ip p OR ((shr (netmask p) 1 OR HighestBitSet) XOR netmask p)"
    by (auto simp add: Split_def Let_def split: if_splits)
  then have l: "ip l = ip p" "rangeLength l = x" "rangeLength u = x"
    and u: "ip u = ip p OR x"
    by (simp_all only: half xr')
  have clear: "\<not> bit (ip p) (k - 1)"
  proof
    assume "bit (ip p) (k - 1)"
    with st have "bit (ip p AND netmask p) (k - 1)" by simp
    then show False using k by (simp add: nm bit_simps)
  qed
  have disj: "\<not> bit (ip p) i \<or> \<not> bit x i" for i
    using clear by (auto simp add: x_def bit_exp_iff)
  have plus: "ip p OR x = ip p + x"
    by (rule disjunctive_add [symmetric]) (rule disj)
  have "ip p \<le> ip p OR x" by (rule le_word_or2)
  moreover have "ip p \<noteq> ip p OR x"
  proof
    assume "ip p = ip p OR x"
    then have "bit (ip p) (k - 1) = bit (ip p OR x) (k - 1)" by simp
    with clear show False using k by (simp add: bit_or_iff x_def bit_exp_iff possible_bit_word)
  qed
  ultimately have "ip p < ip p OR x" by simp
  then show ?thesis by (simp add: l u dbl plus [symmetric])
qed

section \<open>Blocks of prefix length 0\<close>

text \<open>
  For prefix length 0 the range length \<open>2 ^ 32\<close> does not fit the \<open>uint32\<close> and is
  stored as 0, so what \<open>Split_partition\<close> and \<open>GetIPInRange_first\<close> say of the other
  prefix lengths fails here. The block of \<open>0.0.0.0/0\<close>:
\<close>

lemma NewIPv4CIDR_slash_0:
  "NewIPv4CIDR ''0.0.0.0/0'' False = Inr \<lparr>ip = 0, mask_f = 0, netmask = 0, rangeLength = 0\<rparr>"
  by code_simp

text \<open>
  C2 says that the two blocks of a successful \<open>Split\<close> are together as long as the
  block, that the lower address is below the upper one, and that the upper address is
  the lower address plus the lower range length. The last part fails on that block:
  \<open>Split\<close> succeeds and returns two blocks of range length 0, the upper one at
  \<open>128.0.0.0\<close>. \<open>NewIPv4CIDR\<close> gives the lower half, \<open>0.0.0.0/1\<close>, the range length
  \<open>2 ^ 31\<close>.
\<close>

theorem Split_slash_0_not_contiguous:
  "NewIPv4CIDR ''0.0.0.0/0'' False = Inr \<lparr>ip = 0, mask_f = 0, netmask = 0, rangeLength = 0\<rparr>
   \<and> Split \<lparr>ip = 0, mask_f = 0, netmask = 0, rangeLength = 0\<rparr> =
       Inr (\<lparr>ip = 0, mask_f = 1, netmask = 2147483648, rangeLength = 0\<rparr>,
            \<lparr>ip = 2147483648, mask_f = 1, netmask = 2147483648, rangeLength = 0\<rparr>)
   \<and> (2147483648 :: uint32) \<noteq> 0 + 0
   \<and> NewIPv4CIDR ''0.0.0.0/1'' False =
       Inr \<lparr>ip = 0, mask_f = 1, netmask = 2147483648, rangeLength = 2147483648\<rparr>"
  by code_simp

text \<open>
  C3 says that \<open>GetIPInRange(1, false)\<close> succeeds on every block that \<open>NewIPv4CIDR\<close>
  returns and gives the same text as \<open>GetIP\<close>. It fails on that block: \<open>GetIP\<close> is
  \<open>0.0.0.0\<close>, and \<open>GetIPInRange(1, false)\<close> returns the out-of-range error, because 1
  is greater than the stored range length 0.
\<close>

theorem GetIPInRange_1_slash_0_fails:
  "NewIPv4CIDR ''0.0.0.0/0'' False = Inr \<lparr>ip = 0, mask_f = 0, netmask = 0, rangeLength = 0\<rparr>
   \<and> GetIP \<lparr>ip = 0, mask_f = 0, netmask = 0, rangeLength = 0\<rparr> = ''0.0.0.0''
   \<and> GetIPInRange \<lparr>ip = 0, mask_f = 0, netmask = 0, rangeLength = 0\<rparr> 1 False =
       Inl RequestedIPExceedsCIDRRangeError"
  by code_simp

end
